theory Spec2Isabelle
  imports Main "HOL-Library.Multiset"
begin

section \<open>Style structures\<close>

text \<open>
  A style object of \<^verbatim>\<open>macro.ts\<close> is a JavaScript object whose values are strings
  (declarations), arrays of strings (declaration arrays) or nested style objects.
  An object is modelled by the list of its entries in property order, which is what
  \<^verbatim>\<open>Object.entries\<close> returns and \<^verbatim>\<open>Object.fromEntries\<close> consumes; keys of one
  object are distinct and none of them is a canonical array index, so property order
  is insertion order.  \<open>Num\<close> stands for a value that is neither a string nor an
  object (a number); \<^verbatim>\<open>null\<close> is left out.  An array carries, besides its elements,
  the named properties that a merge may attach to it.
\<close>

datatype style =
    Str string
  | Num int
  | Arr "string list" "(string \<times> style) list"
  | Obj "(string \<times> style) list"

type_synonym entry = "string \<times> style"

datatype error =
    NotSupported style
  | RuleHasNoNodes

datatype valueType = DeclVariable | Decl | DeclArray | AtRule | Rule

definition startsWith :: "string \<Rightarrow> string \<Rightarrow> bool" where
  "startsWith pre s = (take (length pre) s = pre)"

definition includesChar :: "string \<Rightarrow> char \<Rightarrow> bool" where
  "includesChar s c = (c \<in> set s)"

subsection \<open>Classification of an entry\<close>

text \<open>
  \<^verbatim>\<open>getValueType\<close>: a string is a declaration (a variable declaration when the key
  starts with two dashes), an array is a declaration array, any other object is an
  at-rule or a rule according to its key; everything else throws.
\<close>

fun getValueType :: "string \<Rightarrow> style \<Rightarrow> error + valueType" where
  "getValueType key (Str s) =
     (if startsWith ''--'' key then Inr DeclVariable else Inr Decl)"
| "getValueType key (Arr a ps) = Inr DeclArray"
| "getValueType key (Obj es) =
     (if startsWith ''@'' key then Inr AtRule
      else if includesChar key CHR ''&'' then Inr Rule
      else Inl (NotSupported (Obj es)))"
| "getValueType key (Num n) = Inl (NotSupported (Num n))"

text \<open>\<^verbatim>\<open>valueType.startsWith("decl")\<close>\<close>

fun isDecl :: "valueType \<Rightarrow> bool" where
  "isDecl DeclVariable = True"
| "isDecl Decl = True"
| "isDecl DeclArray = True"
| "isDecl AtRule = False"
| "isDecl Rule = False"

subsection \<open>The number of an at-rule key\<close>

text \<open>
  \<^verbatim>\<open>parseInt(key.replace(/[^0-9]*/g, ""))\<close>: the decimal digits of the key, read as
  one number; \<open>None\<close> is \<^verbatim>\<open>NaN\<close>, the result for a key without digits.  The number
  is kept exact, which is what \<^verbatim>\<open>parseInt\<close> returns for up to fifteen digits.
\<close>

definition isDigit :: "char \<Rightarrow> bool" where
  "isDigit c = (c \<in> set ''0123456789'')"

definition digitValue :: "char \<Rightarrow> nat" where
  "digitValue c = of_char c - 48"

definition parseInt :: "string \<Rightarrow> nat option" where
  "parseInt s = (if s = [] then None
                 else Some (foldl (\<lambda>n c. 10 * n + digitValue c) 0 s))"

definition keyNumber :: "string \<Rightarrow> nat option" where
  "keyNumber key = parseInt (filter isDigit key)"

text \<open>\<^verbatim>\<open>a < b\<close> on numbers: false as soon as one side is \<^verbatim>\<open>NaN\<close>.\<close>

fun numLess :: "nat option \<Rightarrow> nat option \<Rightarrow> bool" where
  "numLess (Some a) (Some b) = (a < b)"
| "numLess _ _ = False"

subsection \<open>The comparator\<close>

text \<open>
  The part of the comparator after both entries are classified.  In the source the
  test before \<^verbatim>\<open>return 0\<close> is \<^verbatim>\<open>firstValueType && secondIsCssVar\<close>, and
  \<^verbatim>\<open>firstValueType\<close> is a non-empty string, hence truthy.
\<close>

definition compareAtRules :: "string \<Rightarrow> valueType \<Rightarrow> string \<Rightarrow> valueType \<Rightarrow> int" where
  "compareAtRules first firstValueType second secondValueType =
     (let firstIsAtRule = (firstValueType = AtRule);
          secondIsAtRule = (secondValueType = AtRule)
      in if firstIsAtRule \<and> secondIsAtRule then
           (let firstNumber = keyNumber first;
                secondNumber = keyNumber second
            in if numLess firstNumber secondNumber then - 1
               else if numLess secondNumber firstNumber then 1
               else 0)
         else if firstIsAtRule then 1
         else if secondIsAtRule then - 1
         else 0)"

definition compareTypes :: "string \<Rightarrow> valueType \<Rightarrow> string \<Rightarrow> valueType \<Rightarrow> int" where
  "compareTypes first firstValueType second secondValueType =
     (let firstIsDecl = isDecl firstValueType;
          secondIsDecl = isDecl secondValueType
      in if firstIsDecl \<or> secondIsDecl then
           (if firstIsDecl \<and> secondIsDecl then
              (let firstIsCssVar = (firstValueType = DeclVariable);
                   secondIsCssVar = (secondValueType = DeclVariable)
               in if True \<and> secondIsCssVar then 0
                  else if firstIsCssVar then - 1
                  else if secondIsCssVar then 1
                  else 0)
            else if firstIsDecl then - 1
            else if secondIsDecl then 1
            else compareAtRules first firstValueType second secondValueType)
         else compareAtRules first firstValueType second secondValueType)"

fun compareEntries :: "entry \<Rightarrow> entry \<Rightarrow> error + int" where
  "compareEntries (first, firstValue) (second, secondValue) =
     (case getValueType first firstValue of
        Inl e \<Rightarrow> Inl e
      | Inr firstValueType \<Rightarrow>
          (case getValueType second secondValue of
             Inl e \<Rightarrow> Inl e
           | Inr secondValueType \<Rightarrow>
               Inr (compareTypes first firstValueType second secondValueType)))"

section \<open>The sort of the timsort package\<close>

text \<open>
  \<^verbatim>\<open>timsort.sort(array, compare)\<close> with \<open>lo = 0\<close> and \<open>hi = array.length\<close>.  An array
  of fewer than two elements is returned without any call of the comparator.  An
  array of fewer than 32 elements is sorted by \<^verbatim>\<open>makeAscendingRun\<close> followed by
  \<^verbatim>\<open>binaryInsertionSort\<close>, both modelled below.  The run-merging path taken for 32
  elements or more is a parameter \<open>mergeRuns\<close> of the model.
\<close>

text \<open>
  The two iterations of \<^verbatim>\<open>makeAscendingRun\<close> that advance \<open>runHi\<close>: while the element
  at \<open>runHi\<close> compares below its predecessor, and while it does not.
\<close>

function descendingRun :: "('a \<Rightarrow> 'a \<Rightarrow> error + int) \<Rightarrow> 'a list \<Rightarrow> nat \<Rightarrow> error + nat" where
  "descendingRun compare array runHi =
     (if runHi < length array then
        (case compare (array ! runHi) (array ! (runHi - 1)) of
           Inl e \<Rightarrow> Inl e
         | Inr c \<Rightarrow> if c < 0 then descendingRun compare array (runHi + 1) else Inr runHi)
      else Inr runHi)"
  by pat_completeness auto
termination
  by (relation "measure (\<lambda>(compare, array, runHi). length array - runHi)") auto

function ascendingRun :: "('a \<Rightarrow> 'a \<Rightarrow> error + int) \<Rightarrow> 'a list \<Rightarrow> nat \<Rightarrow> error + nat" where
  "ascendingRun compare array runHi =
     (if runHi < length array then
        (case compare (array ! runHi) (array ! (runHi - 1)) of
           Inl e \<Rightarrow> Inl e
         | Inr c \<Rightarrow> if c \<ge> 0 then ascendingRun compare array (runHi + 1) else Inr runHi)
      else Inr runHi)"
  by pat_completeness auto
termination
  by (relation "measure (\<lambda>(compare, array, runHi). length array - runHi)") auto

text \<open>\<^verbatim>\<open>reverseRun(array, 0, hi)\<close> reverses the first \<open>hi\<close> elements in place.\<close>

definition reverseRun :: "'a list \<Rightarrow> nat \<Rightarrow> 'a list" where
  "reverseRun array hi = rev (take hi array) @ drop hi array"

text \<open>
  \<^verbatim>\<open>makeAscendingRun(array, 0, array.length, compare)\<close> returns the length of the
  leading run and leaves the array with that run ascending.
\<close>

definition makeAscendingRun :: "('a \<Rightarrow> 'a \<Rightarrow> error + int) \<Rightarrow> 'a list \<Rightarrow> error + (nat \<times> 'a list)" where
  "makeAscendingRun compare array =
     (if 1 = length array then Inr (1, array)
      else
        (case compare (array ! 1) (array ! 0) of
           Inl e \<Rightarrow> Inl e
         | Inr c \<Rightarrow>
             if c < 0 then
               (case descendingRun compare array 2 of
                  Inl e \<Rightarrow> Inl e
                | Inr runHi \<Rightarrow> Inr (runHi, reverseRun array runHi))
             else
               (case ascendingRun compare array 2 of
                  Inl e \<Rightarrow> Inl e
                | Inr runHi \<Rightarrow> Inr (runHi, array))))"

text \<open>
  The binary search of \<^verbatim>\<open>binaryInsertionSort\<close> for the slot of \<open>pivot\<close> in the
  sorted part \<open>array[0..start)\<close>.
\<close>

function binarySearch :: "('a \<Rightarrow> 'a \<Rightarrow> error + int) \<Rightarrow> 'a \<Rightarrow> 'a list \<Rightarrow> nat \<Rightarrow> nat \<Rightarrow> error + nat" where
  "binarySearch compare pivot array left right =
     (if left < right then
        (let mid = (left + right) div 2
         in case compare pivot (array ! mid) of
              Inl e \<Rightarrow> Inl e
            | Inr c \<Rightarrow> if c < 0 then binarySearch compare pivot array left mid
                       else binarySearch compare pivot array (mid + 1) right)
      else Inr left)"
  by pat_completeness auto
termination
  by (relation "measure (\<lambda>(compare, pivot, array, left, right). right - left)") auto

text \<open>
  \<^verbatim>\<open>binaryInsertionSort(array, 0, array.length, start, compare)\<close>.  The array is kept
  as its sorted part \<open>array[0..start)\<close> and the part still to insert; each pivot is
  placed at the slot found by the binary search, the elements from there on moving
  one place right.  With an empty sorted part the first pivot is placed without a
  comparison, which is what \<^verbatim>\<open>if (start === lo) start++\<close> does.
\<close>

fun binaryInsertionSort :: "('a \<Rightarrow> 'a \<Rightarrow> error + int) \<Rightarrow> 'a list \<Rightarrow> 'a list \<Rightarrow> error + 'a list" where
  "binaryInsertionSort compare sortedPart [] = Inr sortedPart"
| "binaryInsertionSort compare sortedPart (pivot # rest) =
     (case binarySearch compare pivot sortedPart 0 (length sortedPart) of
        Inl e \<Rightarrow> Inl e
      | Inr left \<Rightarrow>
          binaryInsertionSort compare (take left sortedPart @ pivot # drop left sortedPart) rest)"

definition timsort :: "(('a \<Rightarrow> 'a \<Rightarrow> error + int) \<Rightarrow> 'a list \<Rightarrow> error + 'a list)
    \<Rightarrow> ('a \<Rightarrow> 'a \<Rightarrow> error + int) \<Rightarrow> 'a list \<Rightarrow> error + 'a list" where
  "timsort mergeRuns compare array =
     (let remaining = length array
      in if remaining < 2 then Inr array
         else if remaining < 32 then
           (case makeAscendingRun compare array of
              Inl e \<Rightarrow> Inl e
            | Inr (runLength, array') \<Rightarrow>
                binaryInsertionSort compare (take runLength array') (drop runLength array'))
         else mergeRuns compare array)"

section \<open>sortStyleObject\<close>

text \<open>
  \<^verbatim>\<open>sortStyleObject\<close> first replaces every value that is an object and not an array
  by its sorted form, in entry order, then sorts the entries with the comparator.
\<close>

type_synonym sorter = "(entry \<Rightarrow> entry \<Rightarrow> error + int) \<Rightarrow> entry list \<Rightarrow> error + entry list"

fun sortStyleObject :: "sorter \<Rightarrow> entry list \<Rightarrow> error + entry list"
  and sortNested :: "sorter \<Rightarrow> entry list \<Rightarrow> error + entry list" where
  "sortStyleObject mergeRuns styleObject =
     (case sortNested mergeRuns styleObject of
        Inl e \<Rightarrow> Inl e
      | Inr styleObjectEntries \<Rightarrow> timsort mergeRuns compareEntries styleObjectEntries)"
| "sortNested mergeRuns [] = Inr []"
| "sortNested mergeRuns ((key, Obj value) # rest) =
     (case sortStyleObject mergeRuns value of
        Inl e \<Rightarrow> Inl e
      | Inr sortedValue \<Rightarrow>
          (case sortNested mergeRuns rest of
             Inl e \<Rightarrow> Inl e
           | Inr rest' \<Rightarrow> Inr ((key, Obj sortedValue) # rest')))"
| "sortNested mergeRuns ((key, Str s) # rest) =
     (case sortNested mergeRuns rest of
        Inl e \<Rightarrow> Inl e
      | Inr rest' \<Rightarrow> Inr ((key, Str s) # rest'))"
| "sortNested mergeRuns ((key, Num n) # rest) =
     (case sortNested mergeRuns rest of
        Inl e \<Rightarrow> Inl e
      | Inr rest' \<Rightarrow> Inr ((key, Num n) # rest'))"
| "sortNested mergeRuns ((key, Arr a ps) # rest) =
     (case sortNested mergeRuns rest of
        Inl e \<Rightarrow> Inl e
      | Inr rest' \<Rightarrow> Inr ((key, Arr a ps) # rest'))"


subsection \<open>Comparison outcomes\<close>

text \<open>
  \<open>below compare a b\<close>: the comparator, called with \<open>a\<close> first, returns a negative
  number, so \<open>a\<close> sorts below \<open>b\<close>.  \<open>notBelow compare a b\<close>: the comparator, called
  with \<open>b\<close> first, returns zero or a positive number, so \<open>b\<close> does not sort below \<open>a\<close>.
  Neither holds when the comparator throws.
\<close>

definition below :: "('a \<Rightarrow> 'a \<Rightarrow> error + int) \<Rightarrow> 'a \<Rightarrow> 'a \<Rightarrow> bool" where
  "below compare a b = (case compare a b of Inl e \<Rightarrow> False | Inr c \<Rightarrow> c < 0)"

definition notBelow :: "('a \<Rightarrow> 'a \<Rightarrow> error + int) \<Rightarrow> 'a \<Rightarrow> 'a \<Rightarrow> bool" where
  "notBelow compare a b = (case compare b a of Inl e \<Rightarrow> False | Inr c \<Rightarrow> 0 \<le> c)"


section \<open>Shapes of style objects\<close>

text \<open>An entry is classified when \<^verbatim>\<open>getValueType\<close> returns a kind for it.\<close>

definition classified :: "entry \<Rightarrow> bool" where
  "classified e = (case getValueType (fst e) (snd e) of Inl x \<Rightarrow> False | Inr t \<Rightarrow> True)"

text \<open>
  The three groups of kinds: the declaration family, rules, at-rules.  The group of
  an entry is the group of its kind.
\<close>

fun kindGroup :: "valueType \<Rightarrow> nat" where
  "kindGroup DeclVariable = 0"
| "kindGroup Decl = 0"
| "kindGroup DeclArray = 0"
| "kindGroup Rule = 1"
| "kindGroup AtRule = 2"

definition entryGroup :: "entry \<Rightarrow> nat" where
  "entryGroup e = (case getValueType (fst e) (snd e) of Inl x \<Rightarrow> 0 | Inr t \<Rightarrow> kindGroup t)"

text \<open>Every object of the structure, nested ones included, has fewer than 32 entries.\<close>

fun fewEntries :: "entry list \<Rightarrow> bool"
  and fewNested :: "entry list \<Rightarrow> bool" where
  "fewEntries es = (length es < 32 \<and> fewNested es)"
| "fewNested [] = True"
| "fewNested ((key, Obj value) # rest) = (fewEntries value \<and> fewNested rest)"
| "fewNested ((key, Str s) # rest) = fewNested rest"
| "fewNested ((key, Num n) # rest) = fewNested rest"
| "fewNested ((key, Arr a ps) # rest) = fewNested rest"

text \<open>Every entry of the structure, at every level, is classified.\<close>

fun wellClassified :: "entry list \<Rightarrow> bool"
  and wellNested :: "entry list \<Rightarrow> bool" where
  "wellClassified es = (list_all classified es \<and> wellNested es)"
| "wellNested [] = True"
| "wellNested ((key, Obj value) # rest) = (wellClassified value \<and> wellNested rest)"
| "wellNested ((key, Str s) # rest) = wellNested rest"
| "wellNested ((key, Num n) # rest) = wellNested rest"
| "wellNested ((key, Arr a ps) # rest) = wellNested rest"


text \<open>
  The entry that the first loop of \<^verbatim>\<open>sortStyleObject\<close> leaves in place of an entry:
  an object value is replaced by its sorted form, any other value is kept.
\<close>

fun sortedEntry :: "sorter \<Rightarrow> entry \<Rightarrow> entry" where
  "sortedEntry mergeRuns (key, Obj value) =
     (case sortStyleObject mergeRuns value of
        Inl e \<Rightarrow> (key, Obj value)
      | Inr sortedValue \<Rightarrow> (key, Obj sortedValue))"
| "sortedEntry mergeRuns (key, Str s) = (key, Str s)"
| "sortedEntry mergeRuns (key, Num n) = (key, Num n)"
| "sortedEntry mergeRuns (key, Arr a ps) = (key, Arr a ps)"

text \<open>
  A finer rank of kinds, which also puts variable declarations before the other
  declarations.
\<close>

fun kindRank :: "valueType \<Rightarrow> nat" where
  "kindRank DeclVariable = 0"
| "kindRank Decl = 1"
| "kindRank DeclArray = 1"
| "kindRank Rule = 2"
| "kindRank AtRule = 3"

definition entryRank :: "entry \<Rightarrow> nat" where
  "entryRank e = (case getValueType (fst e) (snd e) of Inl x \<Rightarrow> 0 | Inr t \<Rightarrow> kindRank t)"


text \<open>An entry is an at-rule when \<^verbatim>\<open>getValueType\<close> returns that kind for it.\<close>

definition isAtRule :: "entry \<Rightarrow> bool" where
  "isAtRule e = (getValueType (fst e) (snd e) = Inr AtRule)"



section \<open>The merge of lodash\<close>

text \<open>
  \<^verbatim>\<open>merge(object, source)\<close> for style objects.  Each own property of the source is
  taken in order.  A value that is not an object (a string) is assigned.  An array
  is merged by index into the array the target holds under that key, or into a new
  empty array when the target holds no array there.  Any other object is merged,
  property by property, into the object or array the target holds under that key,
  or into a new empty object when the target holds no object there.  Keys of
  objects are taken not to be array indices.
\<close>







section \<open>Extraction of a style object from a rule tree\<close>


subsection \<open>The rewrite of a selector\<close>

text \<open>
  \<^verbatim>\<open>unescapedCSS.replace(new RegExp(`\\S*${twClass}`, "g"), "&")\<close>, for a class name
  without characters that are special in a regular expression, and for strings of
  one-byte characters.  \<open>matchAt\<close> is the length of the match of the pattern at the
  start of a string: the longest run of non-space characters that is followed by
  the class name, and the class name.
\<close>

definition isSpace :: "char \<Rightarrow> bool" where
  "isSpace c = ((of_char c :: nat) \<in> set [9, 10, 11, 12, 13, 32, 160])"

fun matchAt :: "string \<Rightarrow> string \<Rightarrow> nat option" where
  "matchAt twClass [] = (if twClass = [] then Some 0 else None)"
| "matchAt twClass (c # cs) =
     (case (if isSpace c then None else matchAt twClass cs) of
        Some n \<Rightarrow> Some (Suc n)
      | None \<Rightarrow> if startsWith twClass (c # cs) then Some (length twClass) else None)"

text \<open>
  Every match, from left to right, is replaced by \<^verbatim>\<open>&\<close>; the search resumes at the
  end of the match, one character further after an empty match.
\<close>

function replaceScope :: "string \<Rightarrow> string \<Rightarrow> string" where
  "replaceScope twClass [] = (case matchAt twClass [] of None \<Rightarrow> [] | Some n \<Rightarrow> ''&'')"
| "replaceScope twClass (c # cs) =
     (case matchAt twClass (c # cs) of
        None \<Rightarrow> c # replaceScope twClass cs
      | Some 0 \<Rightarrow> ''&'' @ c # replaceScope twClass cs
      | Some (Suc n) \<Rightarrow> ''&'' @ replaceScope twClass (drop n cs))"
  by pat_completeness auto
termination
  by (relation "measure (\<lambda>(twClass, s). length s)") auto

subsection \<open>The walk over the rules\<close>



section \<open>transformTwClassesToStyleObject\<close>




text \<open>The class name occurs in a string, at some position.\<close>

definition occursIn :: "string \<Rightarrow> string \<Rightarrow> bool" where
  "occursIn twClass s = list_ex (\<lambda>i. startsWith twClass (drop i s)) [0..<Suc (length s)]"



section \<open>Properties of the sort\<close>

declare binarySearch.simps [simp del]

lemma binarySearch_done: "\<not> l < r \<Longrightarrow> binarySearch cmp p xs l r = Inr l"
  by (subst binarySearch.simps) simp

lemma binarySearch_step:
  "l < r \<Longrightarrow> cmp p (xs ! ((l + r) div 2)) = Inr c \<Longrightarrow>
   binarySearch cmp p xs l r =
     (if c < 0 then binarySearch cmp p xs l ((l + r) div 2)
      else binarySearch cmp p xs ((l + r) div 2 + 1) r)"
  by (subst binarySearch.simps) (simp add: Let_def)

lemma binarySearch_error:
  "l < r \<Longrightarrow> cmp p (xs ! ((l + r) div 2)) = Inl e \<Longrightarrow> binarySearch cmp p xs l r = Inl e"
  by (subst binarySearch.simps) (simp add: Let_def)

lemma binarySearch_bounds:
  "binarySearch cmp p xs l r = Inr i \<Longrightarrow> l \<le> r \<Longrightarrow> l \<le> i \<and> i \<le> r"
proof (induction cmp p xs l r rule: binarySearch.induct)
  case (1 cmp p xs l r)
  show ?case
  proof (cases "l < r")
    case False
    with "1.prems" show ?thesis by (simp add: binarySearch_done)
  next
    case True
    let ?mid = "(l + r) div 2"
    from True "1.prems" obtain c where c: "cmp p (xs ! ?mid) = Inr c"
      by (cases "cmp p (xs ! ?mid)") (simp_all add: binarySearch_error)
    show ?thesis
    proof (cases "c < 0")
      case True
      with \<open>l < r\<close> c "1.prems" have "binarySearch cmp p xs l ?mid = Inr i"
        by (simp add: binarySearch_step)
      moreover have "l \<le> ?mid" "?mid \<le> r" using \<open>l < r\<close> by simp_all
      ultimately show ?thesis using "1.IH"(1)[OF \<open>l < r\<close> refl c True] by simp
    next
      case False
      with \<open>l < r\<close> c "1.prems" have "binarySearch cmp p xs (?mid + 1) r = Inr i"
        by (simp add: binarySearch_step)
      moreover have "l \<le> ?mid" "?mid + 1 \<le> r" using \<open>l < r\<close> by simp_all
      ultimately show ?thesis using "1.IH"(2)[OF \<open>l < r\<close> refl c False] by simp
    qed
  qed
qed

lemma binarySearch_slot:
  "binarySearch cmp p xs l r = Inr i \<Longrightarrow> l \<le> r \<Longrightarrow>
   (l < i \<longrightarrow> notBelow cmp (xs ! (i - 1)) p) \<and> (i < r \<longrightarrow> below cmp p (xs ! i))"
proof (induction cmp p xs l r rule: binarySearch.induct)
  case (1 cmp p xs l r)
  show ?case
  proof (cases "l < r")
    case False
    with "1.prems" show ?thesis by (simp add: binarySearch_done)
  next
    case True
    let ?mid = "(l + r) div 2"
    from True "1.prems" obtain c where c: "cmp p (xs ! ?mid) = Inr c"
      by (cases "cmp p (xs ! ?mid)") (simp_all add: binarySearch_error)
    show ?thesis
    proof (cases "c < 0")
      case True
      with \<open>l < r\<close> c "1.prems" have bs: "binarySearch cmp p xs l ?mid = Inr i"
        by (simp add: binarySearch_step)
      have m: "l \<le> ?mid" "?mid < r" using \<open>l < r\<close> by simp_all
      from binarySearch_bounds[OF bs] m have b: "l \<le> i" "i \<le> ?mid" by simp_all
      from "1.IH"(1)[OF \<open>l < r\<close> refl c True bs] m
      have ih: "(l < i \<longrightarrow> notBelow cmp (xs ! (i - 1)) p) \<and> (i < ?mid \<longrightarrow> below cmp p (xs ! i))"
        by simp
      have "below cmp p (xs ! ?mid)" using c True by (simp add: below_def)
      with ih b m show ?thesis by (cases "i = ?mid") auto
    next
      case False
      with \<open>l < r\<close> c "1.prems" have bs: "binarySearch cmp p xs (?mid + 1) r = Inr i"
        by (simp add: binarySearch_step)
      have m: "l \<le> ?mid" "?mid + 1 \<le> r" using \<open>l < r\<close> by simp_all
      from binarySearch_bounds[OF bs] m have b: "?mid + 1 \<le> i" "i \<le> r" by simp_all
      from "1.IH"(2)[OF \<open>l < r\<close> refl c False bs] m
      have ih: "(?mid + 1 < i \<longrightarrow> notBelow cmp (xs ! (i - 1)) p) \<and> (i < r \<longrightarrow> below cmp p (xs ! i))"
        by simp
      have "notBelow cmp (xs ! ?mid) p" using c False by (simp add: notBelow_def)
      with ih b m show ?thesis by (cases "i = ?mid + 1") auto
    qed
  qed
qed

lemma successively_insert:
  assumes "successively R s" "i \<le> length s"
    and "0 < i \<longrightarrow> R (s ! (i - 1)) p" "i < length s \<longrightarrow> R p (s ! i)"
  shows "successively R (take i s @ p # drop i s)"
proof -
  have s: "successively R (take i s)" "successively R (drop i s)"
    using assms(1) successively_append_iff[of R "take i s" "drop i s"] by simp_all
  have l: "take i s = [] \<or> R (last (take i s)) p"
  proof (cases "i = 0")
    case False
    then have "last (take i s) = s ! (i - 1)"
      using assms(2) by (cases s) (simp_all add: last_conv_nth min_def)
    with False assms(3) show ?thesis by simp
  qed simp
  have h: "drop i s = [] \<or> R p (hd (drop i s))"
  proof (cases "i < length s")
    case True
    then have "hd (drop i s) = s ! i" by (simp add: hd_drop_conv_nth)
    with True assms(4) show ?thesis by simp
  qed simp
  have "successively R (p # drop i s)"
    using s(2) h by (auto simp: successively_Cons)
  with s(1) l show ?thesis
    by (auto simp: successively_append_iff)
qed

lemma binaryInsertionSort_successively:
  assumes A1: "\<And>a b. notBelow cmp a b \<Longrightarrow> R a b"
      and A2: "\<And>a b. below cmp a b \<Longrightarrow> R a b"
  shows "binaryInsertionSort cmp s rest = Inr out \<Longrightarrow> successively R s \<Longrightarrow> successively R out"
proof (induction rest arbitrary: s)
  case Nil
  then show ?case by simp
next
  case (Cons p rest)
  from Cons.prems(1) obtain i where i: "binarySearch cmp p s 0 (length s) = Inr i"
    and r: "binaryInsertionSort cmp (take i s @ p # drop i s) rest = Inr out"
    by (cases "binarySearch cmp p s 0 (length s)") simp_all
  from binarySearch_bounds[OF i] have b: "i \<le> length s" by simp
  from binarySearch_slot[OF i] A1 A2
  have "0 < i \<longrightarrow> R (s ! (i - 1)) p" "i < length s \<longrightarrow> R p (s ! i)" by auto
  from successively_insert[OF Cons.prems(2) b this] Cons.IH[OF r] show ?case by simp
qed



declare descendingRun.simps [simp del] ascendingRun.simps [simp del]

lemma descendingRun_bounds:
  "descendingRun cmp xs k = Inr r \<Longrightarrow> k \<le> length xs \<Longrightarrow> k \<le> r \<and> r \<le> length xs"
proof (induction cmp xs k rule: descendingRun.induct)
  case (1 cmp xs k)
  show ?case
  proof (cases "k < length xs")
    case False
    with "1.prems" show ?thesis by (simp add: descendingRun.simps[of cmp xs k])
  next
    case True
    with "1.prems" obtain c where c: "cmp (xs ! k) (xs ! (k - 1)) = Inr c"
      by (cases "cmp (xs ! k) (xs ! (k - 1))") (simp_all add: descendingRun.simps[of cmp xs k])
    show ?thesis
    proof (cases "c < 0")
      case False
      with True c "1.prems" show ?thesis by (simp add: descendingRun.simps[of cmp xs k])
    next
      case neg: True
      with True c "1.prems" have "descendingRun cmp xs (k + 1) = Inr r"
        by (simp add: descendingRun.simps[of cmp xs k])
      from "1.IH"[OF True c neg this] True show ?thesis by simp
    qed
  qed
qed

lemma ascendingRun_bounds:
  "ascendingRun cmp xs k = Inr r \<Longrightarrow> k \<le> length xs \<Longrightarrow> k \<le> r \<and> r \<le> length xs"
proof (induction cmp xs k rule: ascendingRun.induct)
  case (1 cmp xs k)
  show ?case
  proof (cases "k < length xs")
    case False
    with "1.prems" show ?thesis by (simp add: ascendingRun.simps[of cmp xs k])
  next
    case True
    with "1.prems" obtain c where c: "cmp (xs ! k) (xs ! (k - 1)) = Inr c"
      by (cases "cmp (xs ! k) (xs ! (k - 1))") (simp_all add: ascendingRun.simps[of cmp xs k])
    show ?thesis
    proof (cases "0 \<le> c")
      case False
      with True c "1.prems" show ?thesis by (simp add: ascendingRun.simps[of cmp xs k])
    next
      case pos: True
      with True c "1.prems" have "ascendingRun cmp xs (k + 1) = Inr r"
        by (simp add: ascendingRun.simps[of cmp xs k])
      from "1.IH"[OF True c pos this] True show ?thesis by simp
    qed
  qed
qed

lemma successively_take_Suc:
  assumes "successively P (take k xs)" "0 < k" "k < length xs" "P (xs ! (k - 1)) (xs ! k)"
  shows "successively P (take (Suc k) xs)"
proof -
  have "last (take k xs) = xs ! (k - 1)"
    using assms(2,3) by (cases xs) (simp_all add: last_conv_nth min_def)
  then show ?thesis
    using assms by (simp add: take_Suc_conv_app_nth successively_append_iff)
qed

lemma descendingRun_successively:
  "descendingRun cmp xs k = Inr r \<Longrightarrow> 0 < k \<Longrightarrow> k \<le> length xs \<Longrightarrow>
   successively (\<lambda>a b. below cmp b a) (take k xs) \<Longrightarrow>
   successively (\<lambda>a b. below cmp b a) (take r xs)"
proof (induction cmp xs k rule: descendingRun.induct)
  case (1 cmp xs k)
  show ?case
  proof (cases "k < length xs")
    case False
    with "1.prems" show ?thesis by (simp add: descendingRun.simps[of cmp xs k])
  next
    case True
    with "1.prems" obtain c where c: "cmp (xs ! k) (xs ! (k - 1)) = Inr c"
      by (cases "cmp (xs ! k) (xs ! (k - 1))") (simp_all add: descendingRun.simps[of cmp xs k])
    show ?thesis
    proof (cases "c < 0")
      case False
      with True c "1.prems" show ?thesis by (simp add: descendingRun.simps[of cmp xs k])
    next
      case neg: True
      with True c "1.prems" have d: "descendingRun cmp xs (k + 1) = Inr r"
        by (simp add: descendingRun.simps[of cmp xs k])
      have "below cmp (xs ! k) (xs ! (k - 1))" using c neg by (simp add: below_def)
      with "1.prems"(2,4) True
      have "successively (\<lambda>a b. below cmp b a) (take (Suc k) xs)"
        by (intro successively_take_Suc) simp_all
      with "1.IH"[OF True c neg d] True show ?thesis by simp
    qed
  qed
qed

lemma ascendingRun_successively:
  "ascendingRun cmp xs k = Inr r \<Longrightarrow> 0 < k \<Longrightarrow> k \<le> length xs \<Longrightarrow>
   successively (notBelow cmp) (take k xs) \<Longrightarrow>
   successively (notBelow cmp) (take r xs)"
proof (induction cmp xs k rule: ascendingRun.induct)
  case (1 cmp xs k)
  show ?case
  proof (cases "k < length xs")
    case False
    with "1.prems" show ?thesis by (simp add: ascendingRun.simps[of cmp xs k])
  next
    case True
    with "1.prems" obtain c where c: "cmp (xs ! k) (xs ! (k - 1)) = Inr c"
      by (cases "cmp (xs ! k) (xs ! (k - 1))") (simp_all add: ascendingRun.simps[of cmp xs k])
    show ?thesis
    proof (cases "0 \<le> c")
      case False
      with True c "1.prems" show ?thesis by (simp add: ascendingRun.simps[of cmp xs k])
    next
      case pos: True
      with True c "1.prems" have d: "ascendingRun cmp xs (k + 1) = Inr r"
        by (simp add: ascendingRun.simps[of cmp xs k])
      have "notBelow cmp (xs ! (k - 1)) (xs ! k)" using c pos by (simp add: notBelow_def)
      with "1.prems"(2,4) True
      have "successively (notBelow cmp) (take (Suc k) xs)"
        by (intro successively_take_Suc) simp_all
      with "1.IH"[OF True c pos d] True show ?thesis by simp
    qed
  qed
qed

lemma take2: "2 \<le> length xs \<Longrightarrow> take 2 xs = [xs ! 0, xs ! 1]"
  by (cases xs; cases "tl xs") auto

lemma makeAscendingRun_mset:
  "makeAscendingRun cmp xs = Inr (r, ys) \<Longrightarrow> mset ys = mset xs"
proof -
  have "mset (reverseRun xs n) = mset xs" for n
    using mset_append[of "take n xs" "drop n xs"] by (simp add: reverseRun_def)
  then show "makeAscendingRun cmp xs = Inr (r, ys) \<Longrightarrow> mset ys = mset xs"
    by (auto simp: makeAscendingRun_def split: if_splits sum.splits)
qed

lemma makeAscendingRun_successively:
  assumes A1: "\<And>a b. notBelow cmp a b \<Longrightarrow> R a b"
      and A2: "\<And>a b. below cmp a b \<Longrightarrow> R a b"
      and len: "2 \<le> length xs"
      and run: "makeAscendingRun cmp xs = Inr (r, ys)"
  shows "r \<le> length xs \<and> successively R (take r ys)"
proof -
  from len run obtain c where c: "cmp (xs ! 1) (xs ! 0) = Inr c"
    by (cases "cmp (xs ! 1) (xs ! 0)") (auto simp: makeAscendingRun_def)
  show ?thesis
  proof (cases "c < 0")
    case True
    with len run c obtain d: "descendingRun cmp xs 2 = Inr r" and ys: "ys = reverseRun xs r"
      by (auto simp: makeAscendingRun_def split: sum.splits)
    have "below cmp (xs ! 1) (xs ! 0)" using c True by (simp add: below_def)
    then have "successively (\<lambda>a b. below cmp b a) (take 2 xs)"
      using len by (simp add: take2)
    from descendingRun_successively[OF d _ len this]
    have "successively (\<lambda>a b. below cmp b a) (take r xs)" by simp
    then have "successively (below cmp) (rev (take r xs))" by simp
    then have "successively R (rev (take r xs))"
      by (rule successively_mono) (rule A2)
    moreover from descendingRun_bounds[OF d len] have "r \<le> length xs" by simp
    ultimately show ?thesis by (simp add: ys reverseRun_def)
  next
    case False
    with len run c obtain d: "ascendingRun cmp xs 2 = Inr r" and ys: "ys = xs"
      by (auto simp: makeAscendingRun_def split: sum.splits)
    have "notBelow cmp (xs ! 0) (xs ! 1)" using c False by (simp add: notBelow_def)
    then have "successively (notBelow cmp) (take 2 xs)"
      using len by (simp add: take2)
    from ascendingRun_successively[OF d _ len this]
    have "successively (notBelow cmp) (take r xs)" by simp
    then have "successively R (take r xs)"
      by (rule successively_mono) (rule A1)
    moreover from ascendingRun_bounds[OF d len] have "r \<le> length xs" by simp
    ultimately show ?thesis by (simp add: ys)
  qed
qed


lemma timsort_successively:
  assumes A1: "\<And>a b. notBelow cmp a b \<Longrightarrow> R a b"
      and A2: "\<And>a b. below cmp a b \<Longrightarrow> R a b"
      and len: "length xs < 32"
      and srt: "timsort mr cmp xs = Inr out"
  shows "successively R out"
proof (cases "length xs < 2")
  case True
  with srt have "out = xs" by (simp add: timsort_def)
  with True show ?thesis by (cases xs; cases "tl xs") auto
next
  case False
  with len srt obtain r ys where run: "makeAscendingRun cmp xs = Inr (r, ys)"
    and ins: "binaryInsertionSort cmp (take r ys) (drop r ys) = Inr out"
    by (auto simp: timsort_def split: sum.splits)
  from False have "2 \<le> length xs" by simp
  from makeAscendingRun_successively[of cmp R, OF A1 A2 this run]
  have "successively R (take r ys)" by simp
  from binaryInsertionSort_successively[of cmp R, OF A1 A2 ins this] show ?thesis .
qed




lemma descendingRun_total:
  assumes "\<And>x y. x \<in> set xs \<Longrightarrow> y \<in> set xs \<Longrightarrow> \<exists>c. cmp x y = Inr c"
  shows "\<exists>r. descendingRun cmp xs k = Inr r"
  using assms
proof (induction cmp xs k rule: descendingRun.induct)
  case (1 cmp xs k)
  show ?case
  proof (cases "k < length xs")
    case False
    then show ?thesis by (simp add: descendingRun.simps[of cmp xs k])
  next
    case True
    then have "xs ! k \<in> set xs" "xs ! (k - 1) \<in> set xs" by simp_all
    from "1.prems"[OF this] obtain c where c: "cmp (xs ! k) (xs ! (k - 1)) = Inr c" ..
    show ?thesis
    proof (cases "c < 0")
      case False
      with True c show ?thesis by (simp add: descendingRun.simps[of cmp xs k])
    next
      case neg: True
      from "1.IH"[OF True c neg "1.prems"] True c neg show ?thesis
        by (simp add: descendingRun.simps[of cmp xs k])
    qed
  qed
qed

lemma ascendingRun_total:
  assumes "\<And>x y. x \<in> set xs \<Longrightarrow> y \<in> set xs \<Longrightarrow> \<exists>c. cmp x y = Inr c"
  shows "\<exists>r. ascendingRun cmp xs k = Inr r"
  using assms
proof (induction cmp xs k rule: ascendingRun.induct)
  case (1 cmp xs k)
  show ?case
  proof (cases "k < length xs")
    case False
    then show ?thesis by (simp add: ascendingRun.simps[of cmp xs k])
  next
    case True
    then have "xs ! k \<in> set xs" "xs ! (k - 1) \<in> set xs" by simp_all
    from "1.prems"[OF this] obtain c where c: "cmp (xs ! k) (xs ! (k - 1)) = Inr c" ..
    show ?thesis
    proof (cases "0 \<le> c")
      case False
      with True c show ?thesis by (simp add: ascendingRun.simps[of cmp xs k])
    next
      case pos: True
      from "1.IH"[OF True c pos "1.prems"] True c pos show ?thesis
        by (simp add: ascendingRun.simps[of cmp xs k])
    qed
  qed
qed

lemma binarySearch_total:
  assumes "\<And>y. y \<in> set s \<Longrightarrow> \<exists>c. cmp p y = Inr c" "r \<le> length s"
  shows "\<exists>i. binarySearch cmp p s l r = Inr i"
  using assms
proof (induction cmp p s l r rule: binarySearch.induct)
  case (1 cmp p s l r)
  show ?case
  proof (cases "l < r")
    case False
    then show ?thesis by (simp add: binarySearch_done)
  next
    case True
    let ?mid = "(l + r) div 2"
    from True "1.prems"(2) have m: "?mid < length s" "?mid \<le> length s" by simp_all
    then have "s ! ?mid \<in> set s" by simp
    from "1.prems"(1)[OF this] obtain c where c: "cmp p (s ! ?mid) = Inr c" ..
    show ?thesis
    proof (cases "c < 0")
      case neg: True
      from "1.IH"(1)[OF True refl c neg "1.prems"(1) m(2)] True c neg show ?thesis
        by (simp add: binarySearch_step)
    next
      case False
      from "1.IH"(2)[OF True refl c False "1.prems"(1) "1.prems"(2)] True c False show ?thesis
        by (simp add: binarySearch_step)
    qed
  qed
qed

lemma binaryInsertionSort_total:
  assumes "\<And>x y. x \<in> set s \<union> set rest \<Longrightarrow> y \<in> set s \<union> set rest \<Longrightarrow> \<exists>c. cmp x y = Inr c"
  shows "\<exists>out. binaryInsertionSort cmp s rest = Inr out"
  using assms
proof (induction rest arbitrary: s)
  case Nil
  then show ?case by simp
next
  case (Cons p rest)
  have "\<exists>i. binarySearch cmp p s 0 (length s) = Inr i"
    by (rule binarySearch_total) (simp_all add: Cons.prems)
  then obtain i where i: "binarySearch cmp p s 0 (length s) = Inr i" ..
  have "set (take i s @ p # drop i s) \<subseteq> set s \<union> set (p # rest)"
    using set_take_subset[of i s] set_drop_subset[of i s] by auto
  then have "\<exists>out. binaryInsertionSort cmp (take i s @ p # drop i s) rest = Inr out"
    by (intro Cons.IH Cons.prems) auto
  with i show ?case by simp
qed

lemma timsort_total:
  assumes tot: "\<And>x y. x \<in> set xs \<Longrightarrow> y \<in> set xs \<Longrightarrow> \<exists>c. cmp x y = Inr c"
      and len: "length xs < 32"
  shows "\<exists>out. timsort mr cmp xs = Inr out"
proof (cases "length xs < 2")
  case True
  then show ?thesis by (simp add: timsort_def)
next
  case False
  then have l2: "2 \<le> length xs" by simp
  then have "1 < length xs" "0 < length xs" by auto
  then have "xs ! 1 \<in> set xs" "xs ! 0 \<in> set xs" by (simp_all only: nth_mem)
  from tot[OF this] obtain c where c: "cmp (xs ! 1) (xs ! 0) = Inr c" ..
  from descendingRun_total[of xs cmp 2] tot obtain rd where rd: "descendingRun cmp xs 2 = Inr rd"
    by blast
  from ascendingRun_total[of xs cmp 2] tot obtain ra where ra: "ascendingRun cmp xs 2 = Inr ra"
    by blast
  from l2 c rd ra obtain r ys where run: "makeAscendingRun cmp xs = Inr (r, ys)"
    by (cases "c < 0") (simp_all add: makeAscendingRun_def)
  from makeAscendingRun_mset[OF run] have "set ys = set xs" by (rule mset_eq_setD)
  then have "set (take r ys) \<union> set (drop r ys) \<subseteq> set xs"
    using set_take_subset[of r ys] set_drop_subset[of r ys] by auto
  then have "\<exists>out. binaryInsertionSort cmp (take r ys) (drop r ys) = Inr out"
    by (intro binaryInsertionSort_total tot) auto
  with False len run show ?thesis by (simp add: timsort_def)
qed







section \<open>Properties of the comparator and of sortStyleObject\<close>





lemma compareEntries_Inr:
  "compareEntries a b = Inr c \<Longrightarrow>
   \<exists>ta tb. getValueType (fst a) (snd a) = Inr ta \<and> getValueType (fst b) (snd b) = Inr tb \<and>
           c = compareTypes (fst a) ta (fst b) tb"
  by (cases a; cases b) (auto split: sum.splits)


lemma compareEntries_total:
  "classified a \<Longrightarrow> classified b \<Longrightarrow> \<exists>c. compareEntries a b = Inr c"
  by (cases a; cases b) (auto simp: classified_def split: sum.splits)




lemma sortNested_map:
  "sortNested mr es = Inr es' \<Longrightarrow> es' = map (sortedEntry mr) es"
proof (induction es arbitrary: es')
  case Nil
  then show ?case by simp
next
  case (Cons e es)
  obtain k v where e: "e = (k, v)" by (cases e)
  show ?case
  proof (cases v)
    case (Obj n)
    with e Cons.prems obtain n' r' where "sortStyleObject mr n = Inr n'"
      "sortNested mr es = Inr r'" "es' = (k, Obj n') # r'"
      by (auto simp del: sortStyleObject.simps split: sum.splits)
    with Cons.IH[of r'] e Obj show ?thesis by (simp del: sortStyleObject.simps)
  qed (use e Cons in \<open>auto split: sum.splits\<close>)
qed

lemma classified_sortedEntry [simp]: "classified (sortedEntry mr e) = classified e"
  by (cases "(mr, e)" rule: sortedEntry.cases)
     (auto simp: classified_def simp del: sortStyleObject.simps split: sum.splits)

lemma entryGroup_sortedEntry [simp]: "entryGroup (sortedEntry mr e) = entryGroup e"
  by (cases "(mr, e)" rule: sortedEntry.cases)
     (auto simp: entryGroup_def simp del: sortStyleObject.simps split: sum.splits)


lemma wellNested_iff: "wellNested es \<longleftrightarrow> (\<forall>k n. (k, Obj n) \<in> set es \<longrightarrow> wellClassified n)"
proof (induction es)
  case Nil
  show ?case by simp
next
  case (Cons e es)
  obtain k v where e: "e = (k, v)" by (cases e)
  from Cons e show ?case
    by (cases v) (auto simp del: wellClassified.simps)
qed

lemma fewNested_iff: "fewNested es \<longleftrightarrow> (\<forall>k n. (k, Obj n) \<in> set es \<longrightarrow> fewEntries n)"
proof (induction es)
  case Nil
  show ?case by simp
next
  case (Cons e es)
  obtain k v where e: "e = (k, v)" by (cases e)
  from Cons e show ?case
    by (cases v) (auto simp del: fewEntries.simps)
qed



lemma sortStyleObject_split:
  "sortStyleObject mr es = Inr out \<Longrightarrow>
   timsort mr compareEntries (map (sortedEntry mr) es) = Inr out \<and>
   sortNested mr es = Inr (map (sortedEntry mr) es)"
  by (cases "sortNested mr es") (auto dest: sortNested_map)

lemma timsort_entries_total:
  "list_all classified es \<Longrightarrow> length es < 32 \<Longrightarrow> \<exists>out. timsort mr compareEntries es = Inr out"
  by (rule timsort_total) (auto simp: list_all_iff intro: compareEntries_total)

lemma sort_total:
  shows "wellClassified es \<longrightarrow> fewEntries es \<longrightarrow> (\<exists>out. sortStyleObject mr es = Inr out)"
    and "wellNested es \<longrightarrow> fewNested es \<longrightarrow> (\<exists>es'. sortNested mr es = Inr es')"
proof (induction mr es and mr es rule: sortStyleObject_sortNested.induct)
  case (1 mr es)
  show ?case
  proof (intro impI)
    assume wc: "wellClassified es" and few: "fewEntries es"
    with 1 obtain es' where es': "sortNested mr es = Inr es'" by auto
    from sortNested_map[OF this] have m: "es' = map (sortedEntry mr) es" .
    from wc have "list_all classified es'" by (simp add: m list_all_iff)
    moreover from few have "length es' < 32" by (simp add: m)
    ultimately obtain out where "timsort mr compareEntries es' = Inr out"
      using timsort_entries_total by blast
    with es' show "\<exists>out. sortStyleObject mr es = Inr out" by simp
  qed
qed (auto simp del: sortStyleObject.simps wellClassified.simps fewEntries.simps)









lemma sortNested_other:
  "(\<And>n. v \<noteq> Obj n) \<Longrightarrow> sortNested mr ((k, v) # rest) = Inr es' \<longleftrightarrow>
   (\<exists>r'. sortNested mr rest = Inr r' \<and> es' = (k, v) # r')"
  by (cases v) (auto simp del: sortStyleObject.simps split: sum.splits)




subsection \<open>Numbers of at-rule keys\<close>





lemma isAtRule_group: "isAtRule e \<longleftrightarrow> entryGroup e = 2"
proof (cases "getValueType (fst e) (snd e)")
  case (Inl x)
  then show ?thesis by (simp add: isAtRule_def entryGroup_def)
next
  case (Inr t)
  then show ?thesis by (cases t) (simp_all add: isAtRule_def entryGroup_def)
qed

lemma isAtRule_sortedEntry [simp]: "isAtRule (sortedEntry mr e) = isAtRule e"
  by (simp add: isAtRule_group)

lemma fst_sortedEntry [simp]: "fst (sortedEntry mr e) = fst e"
  by (cases "(mr, e)" rule: sortedEntry.cases)
     (auto simp del: sortStyleObject.simps split: sum.splits)





subsection \<open>Unclassified entries\<close>




section \<open>Properties of the merge\<close>













subsection \<open>Two classes\<close>





section \<open>Properties of the walk\<close>






section \<open>Properties of the selector rewrite\<close>

lemma occursIn_Nil: "occursIn tw [] \<longleftrightarrow> tw = []"
  by (auto simp: occursIn_def startsWith_def)

lemma occursIn_iff: "occursIn tw s \<longleftrightarrow> (\<exists>i\<le>length s. startsWith tw (drop i s))"
  by (auto simp: occursIn_def list_ex_iff less_Suc_eq_le simp del: upt_Suc)

lemma occursIn_Cons: "occursIn tw (c # cs) \<longleftrightarrow> startsWith tw (c # cs) \<or> occursIn tw cs"
proof
  assume "occursIn tw (c # cs)"
  then obtain i where i: "i \<le> length (c # cs)" "startsWith tw (drop i (c # cs))"
    unfolding occursIn_iff by blast
  show "startsWith tw (c # cs) \<or> occursIn tw cs"
  proof (cases i)
    case 0
    with i show ?thesis by simp
  next
    case (Suc j)
    with i have "j \<le> length cs" "startsWith tw (drop j cs)" by simp_all
    then show ?thesis unfolding occursIn_iff by blast
  qed
next
  assume "startsWith tw (c # cs) \<or> occursIn tw cs"
  then show "occursIn tw (c # cs)"
  proof
    assume "startsWith tw (c # cs)"
    then have "0 \<le> length (c # cs) \<and> startsWith tw (drop 0 (c # cs))" by simp
    then show ?thesis unfolding occursIn_iff by blast
  next
    assume "occursIn tw cs"
    then obtain j where "j \<le> length cs" "startsWith tw (drop j cs)"
      unfolding occursIn_iff by blast
    then have "Suc j \<le> length (c # cs) \<and> startsWith tw (drop (Suc j) (c # cs))" by simp
    then show ?thesis unfolding occursIn_iff by blast
  qed
qed


lemma matchAt_absent: "\<not> occursIn tw s \<Longrightarrow> matchAt tw s = None"
  by (induction s) (auto simp: occursIn_Nil occursIn_Cons)

lemma replaceScope_absent: "\<not> occursIn tw s \<Longrightarrow> replaceScope tw s = s"
  by (induction s) (auto simp: occursIn_Nil occursIn_Cons matchAt_absent)











subsection \<open>Ranks of kinds\<close>

lemma compareTypes_neg_rank: "compareTypes k1 t1 k2 t2 < 0 \<Longrightarrow> kindRank t1 \<le> kindRank t2"
  by (cases t1; cases t2)
     (auto simp: compareTypes_def compareAtRules_def Let_def split: if_splits)

lemma compareTypes_nonneg_rank: "0 \<le> compareTypes k1 t1 k2 t2 \<Longrightarrow> kindRank t2 \<le> kindRank t1"
  by (cases t1; cases t2)
     (auto simp: compareTypes_def compareAtRules_def Let_def split: if_splits)

lemma rank_below: "below compareEntries a b \<Longrightarrow> entryRank a \<le> entryRank b"
proof -
  assume "below compareEntries a b"
  then obtain c where c: "compareEntries a b = Inr c" "c < 0"
    by (cases "compareEntries a b") (simp_all add: below_def)
  from compareEntries_Inr[OF c(1)] c(2) show ?thesis
    by (auto simp: entryRank_def dest: compareTypes_neg_rank)
qed

lemma rank_notBelow: "notBelow compareEntries a b \<Longrightarrow> entryRank a \<le> entryRank b"
proof -
  assume "notBelow compareEntries a b"
  then obtain c where c: "compareEntries b a = Inr c" "0 \<le> c"
    by (cases "compareEntries b a") (simp_all add: notBelow_def)
  from compareEntries_Inr[OF c(1)] c(2) show ?thesis
    by (auto simp: entryRank_def dest: compareTypes_nonneg_rank)
qed

lemma timsort_entries_ranks:
  assumes "timsort mr compareEntries es = Inr out" "length es < 32"
  shows "sorted (map entryRank out)"
proof -
  have "successively (\<lambda>a b. entryRank a \<le> entryRank b) out"
    by (rule timsort_successively[OF _ _ assms(2,1)]) (auto dest: rank_below rank_notBelow)
  then have "sorted_wrt (\<lambda>a b. entryRank a \<le> entryRank b) out"
    by (subst (asm) successively_conv_sorted_wrt) (auto intro: transpI)
  then show ?thesis by (simp add: sorted_map)
qed

lemma sortStyleObject_ranks:
  assumes "sortStyleObject mr es = Inr out" "length es < 32"
  shows "sorted (map entryRank out)"
  using sortStyleObject_split[OF assms(1)] assms(2)
  by (intro timsort_entries_ranks[of mr "map (sortedEntry mr) es"]) simp_all


section \<open>Ordering of declarations\<close>

text \<open>
  Claim C1.  For a style object in which every entry is classified and every object
  has fewer than 32 entries, \<^verbatim>\<open>sortStyleObject\<close> returns with every custom property
  (a string under a key that starts with two dashes) before every plain declaration
  (a string under any other key).  In particular an object with exactly these two
  entries is sorted with the custom property first, whichever of the two came first
  in the input.
\<close>

theorem variable_decl_first:
  "(wellClassified es \<and> fewEntries es \<longrightarrow>
      (\<exists>out. sortStyleObject mr es = Inr out \<and>
         (\<forall>i j v a d b. i < length out \<and> j < length out \<and>
            out ! i = (v, Str a) \<and> startsWith ''--'' v \<and>
            out ! j = (d, Str b) \<and> \<not> startsWith ''--'' d \<longrightarrow> i < j))) \<and>
   (startsWith ''--'' v \<and> \<not> startsWith ''--'' d \<longrightarrow>
      sortStyleObject mr [(v, Str a), (d, Str b)] = Inr [(v, Str a), (d, Str b)] \<and>
      sortStyleObject mr [(d, Str b), (v, Str a)] = Inr [(v, Str a), (d, Str b)])"
proof (intro conjI impI)
  assume h: "wellClassified es \<and> fewEntries es"
  then obtain out where out: "sortStyleObject mr es = Inr out"
    using sort_total(1)[of es mr] by blast
  from h have "length es < 32" by simp
  from sortStyleObject_ranks[OF out this] have s: "sorted (map entryRank out)" .
  have "i < j" if t: "i < length out" "j < length out" "out ! i = (v, Str a)" "startsWith ''--'' v"
    "out ! j = (d, Str b)" "\<not> startsWith ''--'' d" for i j v a d b
  proof (rule ccontr)
    assume "\<not> i < j"
    then have "j \<le> i" by simp
    with s t(1) have "entryRank (out ! j) \<le> entryRank (out ! i)"
      by (simp add: sorted_iff_nth_mono)
    with t(3-6) show False by (simp add: entryRank_def)
  qed
  with out show "\<exists>out. sortStyleObject mr es = Inr out \<and>
         (\<forall>i j v a d b. i < length out \<and> j < length out \<and>
            out ! i = (v, Str a) \<and> startsWith ''--'' v \<and>
            out ! j = (d, Str b) \<and> \<not> startsWith ''--'' d \<longrightarrow> i < j)" by blast
next
  assume "startsWith ''--'' v \<and> \<not> startsWith ''--'' d"
  then show "sortStyleObject mr [(v, Str a), (d, Str b)] = Inr [(v, Str a), (d, Str b)]"
    by (simp add: timsort_def makeAscendingRun_def compareTypes_def reverseRun_def
      ascendingRun.simps descendingRun.simps)
next
  assume "startsWith ''--'' v \<and> \<not> startsWith ''--'' d"
  then show "sortStyleObject mr [(d, Str b), (v, Str a)] = Inr [(v, Str a), (d, Str b)]"
    by (simp add: timsort_def makeAscendingRun_def compareTypes_def reverseRun_def
      ascendingRun.simps descendingRun.simps)
qed

theorem variable_decl_first_witness:
  "(wellClassified [(''&:hover'', Obj []), (''color'', Str ''red''), (''--tw-shadow'', Str ''0 0'')] \<and>
    fewEntries [(''&:hover'', Obj []), (''color'', Str ''red''), (''--tw-shadow'', Str ''0 0'')]) \<and>
   (\<exists>out. sortStyleObject (\<lambda>c xs. Inr xs)
       [(''&:hover'', Obj []), (''color'', Str ''red''), (''--tw-shadow'', Str ''0 0'')] = Inr out \<and>
      (\<forall>i j v a d b. i < length out \<and> j < length out \<and>
            out ! i = (v, Str a) \<and> startsWith ''--'' v \<and>
            out ! j = (d, Str b) \<and> \<not> startsWith ''--'' d \<longrightarrow> i < j)) \<and>
   startsWith ''--'' ''--tw-shadow'' \<and> \<not> startsWith ''--'' ''color'' \<and>
   sortStyleObject (\<lambda>c xs. Inr xs) [(''color'', Str ''red''), (''--tw-shadow'', Str ''0 0'')]
     = Inr [(''--tw-shadow'', Str ''0 0''), (''color'', Str ''red'')]"
proof -
  let ?es = "[(''&:hover'', Obj []), (''color'', Str ''red''), (''--tw-shadow'', Str ''0 0'')]"
  have w: "wellClassified ?es" by code_simp
  have f: "fewEntries ?es" by code_simp
  have s: "startsWith ''--'' ''--tw-shadow''" "\<not> startsWith ''--'' ''color''"
    by (simp_all add: startsWith_def)
  from variable_decl_first[of ?es "\<lambda>c xs. Inr xs" "''--tw-shadow''" "''color''" "''0 0''" "''red''"]
    w f s
  show ?thesis by (simp del: sortStyleObject.simps)
qed


section \<open>Groups of kinds\<close>



section \<open>Idempotence\<close>



section \<open>Content of the sorted object\<close>




section \<open>At-rules in number order\<close>




section \<open>Entries without a kind\<close>





section \<open>Keys set by two classes\<close>





section \<open>The rewritten selector\<close>





section \<open>Rules that only scope to the class\<close>




section \<open>Rules without nodes\<close>




end
